theory Spec2Isabelle
  imports Complex_Main "HOL-Library.AList" "HOL-Library.Char_ord" "HOL-Library.List_Lexorder"
begin

section \<open>Text: characters, normalisation, keywords\<close>

text \<open>
  Texts are lists of characters; a character is a code point below 256, so the model
  covers Latin-1 text. A text argument that may be missing is a \<open>string option\<close>:
  \<open>None\<close> is a cell of which \<open>pd.isna\<close> holds (Python's \<open>None\<close> or a NaN), and
  \<open>Some s\<close> is a cell whose \<open>str()\<close> is \<open>s\<close>. Scores are Python floats in the source
  and exact rationals here.
\<close>

definition is_space :: "char \<Rightarrow> bool" where
  \<comment> \<open>What \<open>\s\<close>, \<open>str.strip()\<close> and \<open>str.split()\<close> take for whitespace, below 256.\<close>
  "is_space c \<longleftrightarrow>
     c \<in> set [CHR 0x09, CHR 0x0A, CHR 0x0B, CHR 0x0C, CHR 0x0D, CHR 0x1C, CHR 0x1D,
              CHR 0x1E, CHR 0x1F, CHR 0x20, CHR 0x85, CHR 0xA0]"

definition is_lower_alnum :: "char \<Rightarrow> bool" where
  \<comment> \<open>The character class \<open>[a-z0-9]\<close>.\<close>
  "is_lower_alnum c \<longleftrightarrow> c \<in> set ''abcdefghijklmnopqrstuvwxyz0123456789''"

definition lower_char :: "char \<Rightarrow> char" where
  \<comment> \<open>\<open>str.lower()\<close> on one code point below 256: A-Z, and the upper-case letters
      of Latin-1 (0xC0-0xDE without the multiplication sign 0xD7), move up by 32.\<close>
  "lower_char c =
     (let n = (of_char c :: nat)
      in if (65 \<le> n \<and> n \<le> 90) \<or> (192 \<le> n \<and> n \<le> 222 \<and> n \<noteq> 215)
         then char_of (n + 32) else c)"

definition lower :: "string \<Rightarrow> string" where
  "lower s = map lower_char s"

definition blank_specials :: "string \<Rightarrow> string" where
  \<comment> \<open>\<open>re.sub(r'[^a-z0-9\s]', ' ', text)\<close>\<close>
  "blank_specials s = map (\<lambda>c. if is_lower_alnum c \<or> is_space c then c else CHR '' '') s"

fun collapse_ws :: "bool \<Rightarrow> string \<Rightarrow> string" where
  \<comment> \<open>\<open>re.sub(r'\s+', ' ', text)\<close>: every maximal run of whitespace becomes one space.
      The flag says that the character before was whitespace.\<close>
  "collapse_ws in_run [] = []"
| "collapse_ws in_run (c # cs) =
     (if is_space c
      then (if in_run then collapse_ws True cs else CHR '' '' # collapse_ws True cs)
      else c # collapse_ws False cs)"

definition clean_char :: "char \<Rightarrow> bool" where
  \<comment> \<open>A character that normalised text may hold.\<close>
  "clean_char c \<longleftrightarrow> is_lower_alnum c \<or> c = CHR '' ''"

definition strip :: "string \<Rightarrow> string" where
  \<comment> \<open>\<open>str.strip()\<close>\<close>
  "strip s = rev (dropWhile is_space (rev (dropWhile is_space s)))"

definition normalize_text :: "string option \<Rightarrow> string" where
  "normalize_text text =
     (case text of
        None \<Rightarrow> []
      | Some t \<Rightarrow> strip (collapse_ws False (blank_specials (lower t))))"

fun split_ws :: "string \<Rightarrow> string \<Rightarrow> string list" where
  \<comment> \<open>\<open>str.split()\<close>: the maximal runs of characters that are not whitespace. The first
      argument is the word read so far.\<close>
  "split_ws cur [] = (if cur = [] then [] else [cur])"
| "split_ws cur (c # cs) =
     (if is_space c
      then (if cur = [] then split_ws [] cs else cur # split_ws [] cs)
      else split_ws (cur @ [c]) cs)"

definition split :: "string \<Rightarrow> string list" where
  "split s = split_ws [] s"

definition stop_words :: "string list" where
  "stop_words =
     [''the'', ''and'', ''or'', ''of'', ''in'', ''for'', ''with'', ''without'',
      ''per'', ''each'', ''including'', ''excluding'', ''code'', ''service'']"

definition extract_keywords :: "string option \<Rightarrow> string list" where
  "extract_keywords text =
     (let words = split (normalize_text text)
      in filter (\<lambda>w. w \<notin> set stop_words \<and> length w > 2) words)"

section \<open>Similarity scores\<close>

definition jaccard_similarity :: "string option \<Rightarrow> string option \<Rightarrow> rat" where
  "jaccard_similarity text1 text2 =
     (let set1 = set (extract_keywords text1);
          set2 = set (extract_keywords text2)
      in if set1 = {} \<or> set2 = {} then 0
         else let intersection = card (set1 \<inter> set2);
                  union = card (set1 \<union> set2)
              in if union > 0 then of_nat intersection / of_nat union else 0)"

definition lev_cell :: "char \<Rightarrow> nat list \<Rightarrow> nat \<times> char \<Rightarrow> nat list \<Rightarrow> nat list" where
  \<comment> \<open>One turn of the inner loop: the cell for column \<open>j + 1\<close> is appended.\<close>
  "lev_cell c1 previous_row = (\<lambda>(j, c2) current_row.
     (let insertions = previous_row ! (j + 1) + 1;
          deletions = current_row ! j + 1;
          substitutions = previous_row ! j + (if c1 \<noteq> c2 then 1 else 0)
      in current_row @ [min (min insertions deletions) substitutions]))"

definition lev_row :: "string \<Rightarrow> nat \<times> char \<Rightarrow> nat list \<Rightarrow> nat list" where
  \<comment> \<open>One turn of the outer loop: the row of \<open>c1\<close>, from the row before.\<close>
  "lev_row s2 = (\<lambda>(i, c1) previous_row.
     fold (lev_cell c1 previous_row) (enumerate 0 s2) [i + 1])"

function levenshtein_distance :: "string \<Rightarrow> string \<Rightarrow> nat" where
  "levenshtein_distance s1 s2 =
     (if length s1 < length s2 then levenshtein_distance s2 s1
      else if length s2 = 0 then length s1
      else last (fold (lev_row s2) (enumerate 0 s1) [0..<length s2 + 1]))"
  by pat_completeness auto
termination
  by (relation "measure (\<lambda>(s1, s2). if length s1 < length s2 then 1 else 0)") auto

declare levenshtein_distance.simps [simp del]

definition normalized_levenshtein :: "string option \<Rightarrow> string option \<Rightarrow> rat" where
  "normalized_levenshtein t1 t2 =
     (let text1 = normalize_text t1;
          text2 = normalize_text t2
      in if text1 = [] \<or> text2 = [] then 0
         else let distance = levenshtein_distance text1 text2;
                  max_len = max (length text1) (length text2)
              in if max_len > 0 then 1 - of_nat distance / of_nat max_len else 0)"

definition weighted_similarity ::
  "string option \<Rightarrow> string option \<Rightarrow> rat \<Rightarrow> rat \<Rightarrow> rat" where
  "weighted_similarity text1 text2 jaccard_weight levenshtein_weight =
     (let jaccard_score = jaccard_similarity text1 text2;
          levenshtein_score = normalized_levenshtein text1 text2
      in jaccard_weight * jaccard_score + levenshtein_weight * levenshtein_score)"

fun contains :: "string \<Rightarrow> string \<Rightarrow> bool" where
  \<comment> \<open>\<open>contains sub s\<close> is Python's \<open>sub in s\<close>: \<open>sub\<close> starts at some position of \<open>s\<close>.\<close>
  "contains sub [] = (sub = [])"
| "contains sub (c # cs) = (take (length sub) (c # cs) = sub \<or> contains sub cs)"

definition code_similarity :: "string option \<Rightarrow> string option \<Rightarrow> rat" where
  "code_similarity c1 c2 =
     (case c1 of
        None \<Rightarrow> 0
      | Some a \<Rightarrow>
          (case c2 of
             None \<Rightarrow> 0
           | Some b \<Rightarrow>
               (let code1 = strip a;
                    code2 = strip b
                in if code1 = code2 then 1
                   else if contains code1 code2 \<or> contains code2 code1 then 9 / 10
                   else let min_len = min (length code1) (length code2);
                            matching_chars =
                              length (filter (\<lambda>i. code1 ! i = code2 ! i) [0..<min_len])
                        in of_nat matching_chars
                             / of_nat (max (length code1) (length code2)))))"

section \<open>Tables, dictionaries and errors\<close>

text \<open>
  A table (a pandas DataFrame) is the list of its rows, in order, under the default
  index 0, 1, 2, ...; a row is the list of its column labels with their cells, the labels
  distinct. A cell of a table is a \<open>string option\<close> as above: the program reads the cells
  of its tables through \<open>pd.isna\<close> and \<open>str()\<close> and otherwise carries them along.

  A Python dict is an association list in insertion order: \<open>d[k] = v\<close> is
  \<open>AList.update k v d\<close>, which overwrites the value of a key that is there and appends a
  new key. Its values are the dynamically typed \<open>pyval\<close>.
\<close>

datatype pyval = PNone | PStr string | PNum rat | PBool bool

datatype error = ValueError string | KeyError string | TypeError

type_synonym cell = "string option"

type_synonym series = "(string \<times> cell) list"

type_synonym frame = "series list"

type_synonym dict = "(string \<times> pyval) list"

datatype MatchConfidence = EXACT | HIGH | MEDIUM | LOW | VERY_LOW | NO_MATCH

fun confidence_value :: "MatchConfidence \<Rightarrow> string" where
  "confidence_value EXACT = ''Exact Match''"
| "confidence_value HIGH = ''High Confidence (>90%)''"
| "confidence_value MEDIUM = ''Medium Confidence (70-90%)''"
| "confidence_value LOW = ''Low Confidence (50-70%)''"
| "confidence_value VERY_LOW = ''Very Low Confidence (<50%)''"
| "confidence_value NO_MATCH = ''No Match Found''"

fun of_cell :: "cell \<Rightarrow> pyval" where
  "of_cell None = PNone"
| "of_cell (Some s) = PStr s"

fun as_number :: "pyval \<Rightarrow> rat option" where
  \<comment> \<open>The values Python orders and subtracts as numbers; a bool is the int 0 or 1.\<close>
  "as_number (PNum r) = Some r"
| "as_number (PBool b) = Some (if b then 1 else 0)"
| "as_number _ = None"

fun as_text :: "pyval \<Rightarrow> string option" where
  "as_text (PStr s) = Some s"
| "as_text _ = None"

definition dict_get :: "dict \<Rightarrow> string \<Rightarrow> pyval" where
  \<comment> \<open>\<open>d.get(k)\<close>\<close>
  "dict_get d k = (case map_of d k of None \<Rightarrow> PNone | Some v \<Rightarrow> v)"

definition dict_item :: "dict \<Rightarrow> string \<Rightarrow> error + pyval" where
  \<comment> \<open>\<open>d[k]\<close>\<close>
  "dict_item d k = (case map_of d k of None \<Rightarrow> Inl (KeyError k) | Some v \<Rightarrow> Inr v)"

definition slice_to :: "int \<Rightarrow> 'a list \<Rightarrow> 'a list" where
  \<comment> \<open>\<open>xs[:n]\<close>; a negative \<open>n\<close> counts from the end.\<close>
  "slice_to n xs =
     (if n < 0 then take (nat (int (length xs) + n)) xs else take (nat n) xs)"

definition sort_reverse :: "('a \<Rightarrow> 'k::linorder) \<Rightarrow> 'a list \<Rightarrow> 'a list" where
  \<comment> \<open>\<open>list.sort(key=f, reverse=True)\<close> on keys that Python can order: the list is
      reversed, sorted stably by ascending key, and reversed again.\<close>
  "sort_reverse f xs = rev (sort_key f (rev xs))"

definition sort_matches :: "dict list \<Rightarrow> error + dict list" where
  \<comment> \<open>\<open>matches.sort(key=lambda x: x['similarity_score'], reverse=True)\<close>. No two keys
      are compared in a list of fewer than two elements. Numbers are ordered by value and
      texts by code points; sorting anything else, or a mixture, raises \<open>TypeError\<close>.\<close>
  "sort_matches matches =
     (if \<not> list_all (\<lambda>m. map_of m ''similarity_score'' \<noteq> None) matches
      then Inl (KeyError ''similarity_score'')
      else if length matches < 2 then Inr matches
      else if list_all (\<lambda>m. as_number (dict_get m ''similarity_score'') \<noteq> None) matches
      then Inr (sort_reverse
                  (\<lambda>m. case as_number (dict_get m ''similarity_score'') of
                          Some r \<Rightarrow> r | None \<Rightarrow> 0) matches)
      else if list_all (\<lambda>m. as_text (dict_get m ''similarity_score'') \<noteq> None) matches
      then Inr (sort_reverse
                  (\<lambda>m. case as_text (dict_get m ''similarity_score'') of
                          Some s \<Rightarrow> s | None \<Rightarrow> []) matches)
      else Inl TypeError)"

section \<open>The mapping engine\<close>

definition add_columns :: "string \<Rightarrow> string option list \<Rightarrow> series \<Rightarrow> dict \<Rightarrow> dict" where
  \<comment> \<open>\<open>for col in row.index: if col not in skip: d[prefix + col] = row[col]\<close>\<close>
  "add_columns prefix skip row d =
     fold (\<lambda>col d. if Some col \<in> set skip then d
                    else (case map_of row col of
                            None \<Rightarrow> d
                          | Some v \<Rightarrow> AList.update (prefix @ col) (of_cell v) d))
          (map fst row) d"

definition make_match ::
  "string \<Rightarrow> string option \<Rightarrow> nat \<Rightarrow> series \<Rightarrow> cell \<Rightarrow> rat \<Rightarrow> dict" where
  \<comment> \<open>The dict that \<open>find_best_match\<close> builds for a row that reaches the threshold.\<close>
  "make_match description_column code_column idx row target_desc similarity =
     add_columns [] [Some description_column, code_column] row
       [(''index'', PNum (of_nat idx)),
        (''similarity_score'', PNum similarity),
        (''description'', of_cell target_desc),
        (''code'',
           (case code_column of
              None \<Rightarrow> PNone
            | Some cc \<Rightarrow>
                if cc \<noteq> [] then (case map_of row cc of None \<Rightarrow> PNone | Some v \<Rightarrow> of_cell v)
                else PNone))]"

fun collect_matches ::
  "cell \<Rightarrow> string \<Rightarrow> string option \<Rightarrow> rat \<Rightarrow> (nat \<times> series) list \<Rightarrow> dict list
     \<Rightarrow> error + dict list" where
  \<comment> \<open>The loop of \<open>find_best_match\<close> over \<open>target_df.iterrows()\<close>.\<close>
  "collect_matches source_description description_column code_column min_threshold
     [] matches = Inr matches"
| "collect_matches source_description description_column code_column min_threshold
     ((idx, row) # rest) matches =
     (case map_of row description_column of
        None \<Rightarrow> Inl (KeyError description_column)
      | Some target_desc \<Rightarrow>
          (let similarity =
                 weighted_similarity source_description target_desc (2 / 5) (3 / 5)
           in collect_matches source_description description_column code_column
                min_threshold rest
                (if similarity \<ge> min_threshold
                 then matches @ [make_match description_column code_column idx row
                                   target_desc similarity]
                 else matches)))"

definition find_best_match ::
  "cell \<Rightarrow> frame \<Rightarrow> string \<Rightarrow> string option \<Rightarrow> int \<Rightarrow> rat \<Rightarrow> error + dict list" where
  "find_best_match source_description target_df description_column code_column top_n
     min_threshold =
     (case collect_matches source_description description_column code_column
             min_threshold (enumerate 0 target_df) [] of
        Inl e \<Rightarrow> Inl e
      | Inr matches \<Rightarrow>
          (case sort_matches matches of
             Inl e \<Rightarrow> Inl e
           | Inr sorted_matches \<Rightarrow> Inr (slice_to top_n sorted_matches)))"

record engine =
  price_list :: "frame option"

definition confidence_of :: "rat \<Rightarrow> MatchConfidence" where
  \<comment> \<open>The \<open>if\<close>/\<open>elif\<close> chain of \<open>map_to_price_list\<close>.\<close>
  "confidence_of score =
     (if score \<ge> 95 / 100 then EXACT
      else if score \<ge> 90 / 100 then HIGH
      else if score \<ge> 70 / 100 then MEDIUM
      else if score \<ge> 50 / 100 then LOW
      else VERY_LOW)"

definition map_row :: "frame \<Rightarrow> string \<Rightarrow> string \<Rightarrow> rat \<Rightarrow> series \<Rightarrow> error + dict" where
  \<comment> \<open>The body of the loop of \<open>map_to_price_list\<close>: the result dict of one row.\<close>
  "map_row pl sbs_code_col sbs_desc_col min_threshold row =
     (case map_of row sbs_code_col of
        None \<Rightarrow> Inl (KeyError sbs_code_col)
      | Some sbs_code \<Rightarrow>
     (case map_of row sbs_desc_col of
        None \<Rightarrow> Inl (KeyError sbs_desc_col)
      | Some sbs_desc \<Rightarrow>
     (case find_best_match sbs_desc pl ''pricelist_description'' (Some ''pricelist_code'')
             5 min_threshold of
        Inl e \<Rightarrow> Inl e
      | Inr matches \<Rightarrow>
     (case matches of
        [] \<Rightarrow>
          Inr [(''sbs_code'', of_cell sbs_code),
               (''sbs_description'', of_cell sbs_desc),
               (''matched_pricelist_code'', PNone),
               (''matched_pricelist_description'', PNone),
               (''similarity_score'', PNum 0),
               (''confidence'', PStr (confidence_value NO_MATCH)),
               (''price'', PNone),
               (''alternative_matches'', PNum 0),
               (''second_best_score'', PNone)]
      | best_match # _ \<Rightarrow>
     (case dict_item best_match ''similarity_score'' of
        Inl e \<Rightarrow> Inl e
      | Inr score \<Rightarrow>
     (case as_number score of
        None \<Rightarrow> Inl TypeError
      | Some s \<Rightarrow>
     (case dict_item best_match ''description'' of
        Inl e \<Rightarrow> Inl e
      | Inr description \<Rightarrow>
     (case (if length matches > 1 then dict_item (matches ! 1) ''similarity_score''
            else Inr PNone) of
        Inl e \<Rightarrow> Inl e
      | Inr second_best \<Rightarrow>
          Inr (add_columns ''original_'' [Some sbs_code_col, Some sbs_desc_col] row
                 [(''sbs_code'', of_cell sbs_code),
                  (''sbs_description'', of_cell sbs_desc),
                  (''matched_pricelist_code'', dict_get best_match ''code''),
                  (''matched_pricelist_description'', description),
                  (''similarity_score'', score),
                  (''confidence'', PStr (confidence_value (confidence_of s))),
                  (''price'', dict_get best_match ''price''),
                  (''alternative_matches'', PNum (of_nat (length matches) - 1)),
                  (''second_best_score'', second_best)])))))))))"

fun map_rows ::
  "frame \<Rightarrow> string \<Rightarrow> string \<Rightarrow> rat \<Rightarrow> series list \<Rightarrow> dict list \<Rightarrow> error + dict list" where
  \<comment> \<open>The loop of \<open>map_to_price_list\<close> over \<open>sbs_df.iterrows()\<close>; the progress lines it
      prints are left out.\<close>
  "map_rows pl sbs_code_col sbs_desc_col min_threshold [] results = Inr results"
| "map_rows pl sbs_code_col sbs_desc_col min_threshold (row # rest) results =
     (case map_row pl sbs_code_col sbs_desc_col min_threshold row of
        Inl e \<Rightarrow> Inl e
      | Inr result \<Rightarrow>
          map_rows pl sbs_code_col sbs_desc_col min_threshold rest (results @ [result]))"

definition map_to_price_list ::
  "engine \<Rightarrow> frame \<Rightarrow> string \<Rightarrow> string \<Rightarrow> rat \<Rightarrow> error + dict list" where
  "map_to_price_list self sbs_df sbs_code_col sbs_desc_col min_threshold =
     (case price_list self of
        None \<Rightarrow> Inl (ValueError ''Price list not loaded. Call load_price_list() first.'')
      | Some pl \<Rightarrow> map_rows pl sbs_code_col sbs_desc_col min_threshold sbs_df [])"

section \<open>Review flags\<close>

definition is_ambiguous :: "rat \<Rightarrow> dict \<Rightarrow> error + bool" where
  "is_ambiguous score_difference_threshold row =
     (case dict_item row ''second_best_score'' of
        Inl e \<Rightarrow> Inl e
      | Inr second \<Rightarrow>
          if second = PNone then Inr False
          else (case dict_item row ''similarity_score'' of
                  Inl e \<Rightarrow> Inl e
                | Inr best \<Rightarrow>
                    (case (as_number best, as_number second) of
                       (Some b, Some r) \<Rightarrow>
                         (let score_diff = b - r
                          in Inr (score_diff < score_difference_threshold))
                     | _ \<Rightarrow> Inl TypeError)))"

definition flag_row :: "rat \<Rightarrow> dict \<Rightarrow> error + dict" where
  \<comment> \<open>What \<open>flag_ambiguous_matches\<close> does to one row of the table.\<close>
  "flag_row score_difference_threshold row =
     (case is_ambiguous score_difference_threshold row of
        Inl e \<Rightarrow> Inl e
      | Inr ambiguous \<Rightarrow>
          (case dict_item row ''confidence'' of
             Inl e \<Rightarrow> Inl e
           | Inr confidence \<Rightarrow>
               Inr (AList.update ''requires_review''
                      (PBool (ambiguous
                              \<or> confidence = PStr (confidence_value LOW)
                              \<or> confidence = PStr (confidence_value VERY_LOW)))
                      (AList.update ''is_ambiguous'' (PBool ambiguous) row))))"

fun flag_ambiguous_matches :: "dict list \<Rightarrow> rat \<Rightarrow> error + dict list" where
  "flag_ambiguous_matches [] score_difference_threshold = Inr []"
| "flag_ambiguous_matches (row # rest) score_difference_threshold =
     (case flag_row score_difference_threshold row of
        Inl e \<Rightarrow> Inl e
      | Inr flagged \<Rightarrow>
          (case flag_ambiguous_matches rest score_difference_threshold of
             Inl e \<Rightarrow> Inl e
           | Inr flagged_rest \<Rightarrow> Inr (flagged # flagged_rest)))"

fun edit_distance :: "'a list \<Rightarrow> 'a list \<Rightarrow> nat" where
  \<comment> \<open>The edit distance by its recurrence: what the rows of \<open>levenshtein_distance\<close>
      are shown to compute. It is used in proofs only.\<close>
  "edit_distance [] ys = length ys"
| "edit_distance (x # xs) [] = Suc (length xs)"
| "edit_distance (x # xs) (y # ys) =
     min (min (edit_distance xs (y # ys) + 1) (edit_distance (x # xs) ys + 1))
         (edit_distance xs ys + (if x \<noteq> y then 1 else 0))"

definition lev_table :: "'a list \<Rightarrow> 'a list \<Rightarrow> nat \<Rightarrow> nat \<Rightarrow> nat" where
  \<comment> \<open>The cell in row \<open>i\<close> and column \<open>j\<close>: the distance of the first \<open>i\<close> characters of
      \<open>s1\<close> from the first \<open>j\<close> of \<open>s2\<close>. It is used in proofs only.\<close>
  "lev_table s1 s2 i j = edit_distance (rev (take i s1)) (rev (take j s2))"

definition cell_at :: "series \<Rightarrow> string \<Rightarrow> cell" where
  \<comment> \<open>The cell of a row under a label; it is used for rows that have the label.\<close>
  "cell_at row col = (case map_of row col of None \<Rightarrow> None | Some c \<Rightarrow> c)"

definition row_score :: "cell \<Rightarrow> string \<Rightarrow> series \<Rightarrow> rat" where
  \<comment> \<open>The score that \<open>find_best_match\<close> computes for a row of the target table.\<close>
  "row_score source_description description_column row =
     weighted_similarity source_description (cell_at row description_column) (2 / 5) (3 / 5)"

definition candidate :: "cell \<Rightarrow> string \<Rightarrow> string option \<Rightarrow> frame \<Rightarrow> nat \<Rightarrow> dict" where
  \<comment> \<open>The dict that \<open>find_best_match\<close> builds for the row at position \<open>i\<close>.\<close>
  "candidate source_description description_column code_column target_df i =
     make_match description_column code_column i (target_df ! i)
       (cell_at (target_df ! i) description_column)
       (row_score source_description description_column (target_df ! i))"

section \<open>Properties of normalisation\<close>

lemma subset_snoc: "\<forall>c \<in> A. c \<in> set xs \<or> c = y \<Longrightarrow> A \<subseteq> set (xs @ [y])"
  by auto

lemma alnum_space:
  "''abcdefghijklmnopqrstuvwxyz0123456789 '' = ''abcdefghijklmnopqrstuvwxyz0123456789'' @ [CHR '' '']"
  by (simp only: append.simps)

lemma space_is_space: "is_space (CHR '' '')"
  by (simp add: is_space_def)

lemma lower_alnum_not_space: "is_lower_alnum c \<Longrightarrow> \<not> is_space c"
  by (auto simp: is_lower_alnum_def is_space_def)

lemma clean_char_space_iff: "clean_char c \<Longrightarrow> is_space c \<longleftrightarrow> c = CHR '' ''"
  using lower_alnum_not_space space_is_space by (auto simp: clean_char_def)

lemma blank_specials_chars:
  "c \<in> set (blank_specials s) \<Longrightarrow> is_lower_alnum c \<or> is_space c"
  by (auto simp: blank_specials_def space_is_space split: if_splits)

lemma collapse_ws_chars:
  "\<forall>c \<in> set s. is_lower_alnum c \<or> is_space c \<Longrightarrow> c \<in> set (collapse_ws b s) \<Longrightarrow> clean_char c"
  by (induction b s rule: collapse_ws.induct) (auto simp: clean_char_def split: if_splits)

lemma collapse_ws_hd:
  "collapse_ws True s \<noteq> [] \<Longrightarrow> \<not> is_space (hd (collapse_ws True s))"
  by (induction s) (auto split: if_splits)

lemma collapse_ws_successively:
  "successively (\<lambda>x y. \<not> (x = CHR '' '' \<and> y = CHR '' '')) (collapse_ws b s)"
proof (induction b s rule: collapse_ws.induct)
  case (1 in_run)
  then show ?case by simp
next
  case (2 in_run c cs)
  show ?case
  proof (cases "is_space c")
    case True
    have "successively (\<lambda>x y. \<not> (x = CHR '' '' \<and> y = CHR '' '')) (CHR '' '' # collapse_ws True cs)"
      using 2 True collapse_ws_hd[of cs] space_is_space
      by (cases "collapse_ws True cs") (auto simp: successively_Cons)
    then show ?thesis using 2 True by simp
  next
    case False
    then have "c \<noteq> CHR '' ''" using space_is_space by auto
    then show ?thesis using 2 False
      by (cases "collapse_ws False cs") (auto simp: successively_Cons)
  qed
qed

lemma successively_dropWhile:
  "successively P xs \<Longrightarrow> successively P (dropWhile Q xs)"
  by (induction xs rule: induct_list012) auto

lemma strip_set: "set (strip s) \<subseteq> set s"
  by (auto simp: strip_def dest!: set_dropWhileD)

lemma strip_successively:
  assumes "successively (\<lambda>x y. \<not> (x = CHR '' '' \<and> y = CHR '' '')) s"
  shows "successively (\<lambda>x y. \<not> (x = CHR '' '' \<and> y = CHR '' '')) (strip s)"
proof -
  let ?P = "\<lambda>x y. \<not> (x = CHR '' '' \<and> y = CHR '' '')"
  have "successively ?P (dropWhile is_space s)" using assms by (rule successively_dropWhile)
  then have "successively (\<lambda>x y. ?P y x) (rev (dropWhile is_space s))"
    by (simp add: successively_rev)
  then have "successively (\<lambda>x y. ?P y x) (dropWhile is_space (rev (dropWhile is_space s)))"
    by (rule successively_dropWhile)
  moreover have "(\<lambda>x y. ?P y x) = ?P" by (intro ext) auto
  ultimately show ?thesis unfolding strip_def by (simp only: successively_rev)
qed

lemma strip_hd: "strip s \<noteq> [] \<Longrightarrow> \<not> is_space (hd (strip s))"
proof -
  assume ne: "strip s \<noteq> []"
  let ?d = "dropWhile is_space s"
  have "strip s = rev (dropWhile is_space (rev ?d))" by (simp add: strip_def)
  have dne: "?d \<noteq> []"
  proof
    assume "?d = []"
    then have "rev (dropWhile is_space (rev ?d)) = []"
      by (simp only: rev.simps dropWhile.simps)
    with ne show False by (simp only: strip_def)
  qed
  then have h: "\<not> is_space (hd ?d)" by (rule hd_dropWhile)
  obtain x xs where d: "?d = x # xs" using dne by (cases ?d) auto
  have "rev (dropWhile is_space (rev ?d)) = x # rev (dropWhile is_space (rev xs))"
    using h d by (simp add: dropWhile_append3)
  then show ?thesis using h d by (simp add: strip_def)
qed

lemma strip_last: "strip s \<noteq> [] \<Longrightarrow> \<not> is_space (last (strip s))"
proof -
  assume ne: "strip s \<noteq> []"
  let ?r = "dropWhile is_space (rev (dropWhile is_space s))"
  have rne: "?r \<noteq> []" using ne by (simp add: strip_def)
  have "last (strip s) = hd ?r" unfolding strip_def by (rule last_rev)
  then show ?thesis using hd_dropWhile[OF rne] by simp
qed

text \<open>
  C8. For every text \<open>t\<close>, missing or not, \<open>normalize_text t\<close> holds only lower-case
  ASCII letters, digits and spaces, no two spaces are adjacent, and it neither starts
  nor ends with a space; a missing text gives the empty string. The function is total.
\<close>

theorem normalize_text_shape:
  "set (normalize_text t) \<subseteq> set ''abcdefghijklmnopqrstuvwxyz0123456789 ''
   \<and> (\<forall>i. Suc i < length (normalize_text t) \<longrightarrow>
          \<not> (normalize_text t ! i = CHR '' '' \<and> normalize_text t ! Suc i = CHR '' ''))
   \<and> (normalize_text t \<noteq> [] \<longrightarrow>
          hd (normalize_text t) \<noteq> CHR '' '' \<and> last (normalize_text t) \<noteq> CHR '' '')
   \<and> normalize_text None = []"
proof (cases t)
  case None
  then show ?thesis by (simp add: normalize_text_def)
next
  case (Some s)
  define u where "u = collapse_ws False (blank_specials (lower s))"
  have n: "normalize_text t = strip u" by (simp add: normalize_text_def Some u_def)
  have cl: "\<forall>c \<in> set u. clean_char c"
    unfolding u_def using collapse_ws_chars blank_specials_chars by blast
  have "\<forall>c \<in> set (strip u). clean_char c" using cl strip_set by blast
  then have a: "set (strip u) \<subseteq> set ''abcdefghijklmnopqrstuvwxyz0123456789 ''"
    unfolding clean_char_def is_lower_alnum_def alnum_space by (rule subset_snoc)
  have "successively (\<lambda>x y. \<not> (x = CHR '' '' \<and> y = CHR '' '')) (strip u)"
    unfolding u_def by (rule strip_successively[OF collapse_ws_successively])
  then have b: "\<forall>i. Suc i < length (strip u) \<longrightarrow>
          \<not> (strip u ! i = CHR '' '' \<and> strip u ! Suc i = CHR '' '')"
    by (simp add: successively_conv_nth)
  have c: "strip u \<noteq> [] \<longrightarrow> hd (strip u) \<noteq> CHR '' '' \<and> last (strip u) \<noteq> CHR '' ''"
    using strip_hd[of u] strip_last[of u] space_is_space by auto
  show ?thesis using a b c n by (simp add: normalize_text_def)
qed

theorem normalize_text_shape_witness:
  "normalize_text (Some ''  Chest X-Ray, (2) '') = ''chest x ray 2''
   \<and> hd (normalize_text (Some ''  Chest X-Ray, (2) '')) \<noteq> CHR '' ''
   \<and> last (normalize_text (Some ''  Chest X-Ray, (2) '')) \<noteq> CHR '' ''"
proof -
  have e: "normalize_text (Some ''  Chest X-Ray, (2) '') = ''chest x ray 2''"
    by code_simp
  then have "normalize_text (Some ''  Chest X-Ray, (2) '') \<noteq> []" by simp
  then show ?thesis using e normalize_text_shape[of "Some ''  Chest X-Ray, (2) ''"] by blast
qed

section \<open>The rows of the Levenshtein distance\<close>

lemma edit_distance_Nil2: "edit_distance xs [] = length xs"
  by (cases xs) simp_all

lemma edit_distance_sym: "edit_distance xs ys = edit_distance ys xs"
proof (induction xs ys rule: edit_distance.induct)
  case (1 ys)
  then show ?case by (simp add: edit_distance_Nil2)
next
  case (2 x xs)
  then show ?case by simp
next
  case (3 x xs y ys)
  then show ?case by (simp add: min.commute min.left_commute eq_commute[of x y])
qed

lemma edit_distance_le: "edit_distance xs ys \<le> max (length xs) (length ys)"
proof (induction xs ys rule: edit_distance.induct)
  case (3 x xs y ys)
  have "edit_distance (x # xs) (y # ys) \<le> edit_distance xs ys + 1"
    by (auto simp: min_le_iff_disj)
  also have "\<dots> \<le> max (length xs) (length ys) + 1" using 3 by simp
  finally show ?case by simp
qed simp_all

lemma edit_distance_refl: "edit_distance xs xs = 0"
  by (induction xs) simp_all

lemma lev_table_0: "j \<le> length s2 \<Longrightarrow> lev_table s1 s2 0 j = j"
  by (simp add: lev_table_def)

lemma lev_table_col0: "i \<le> length s1 \<Longrightarrow> lev_table s1 s2 i 0 = i"
  by (simp add: lev_table_def edit_distance_Nil2)

lemma lev_table_step:
  assumes "i < length s1" "j < length s2"
  shows "lev_table s1 s2 (Suc i) (Suc j) =
           min (min (lev_table s1 s2 i (Suc j) + 1) (lev_table s1 s2 (Suc i) j + 1))
               (lev_table s1 s2 i j + (if s1 ! i \<noteq> s2 ! j then 1 else 0))"
  using assms by (simp add: lev_table_def take_Suc_conv_app_nth)

lemma lev_inner:
  assumes i: "i < length s1"
    and prev: "previous_row = map (lev_table s1 s2 i) [0..<length s2 + 1]"
    and k: "k \<le> length s2"
  shows "fold (lev_cell (s1 ! i) previous_row) (enumerate 0 (take k s2)) [i + 1] =
           map (lev_table s1 s2 (Suc i)) [0..<k + 1]"
  using k
proof (induction k)
  case 0
  show ?case using i by (simp add: lev_table_col0)
next
  case (Suc k)
  then have k: "k < length s2" by simp
  have t: "take (Suc k) s2 = take k s2 @ [s2 ! k]"
    using k by (rule take_Suc_conv_app_nth)
  have e: "enumerate 0 (take (Suc k) s2) = enumerate 0 (take k s2) @ [(k, s2 ! k)]"
    using k by (simp add: t enumerate_append_eq min_def)
  have ih: "fold (lev_cell (s1 ! i) previous_row) (enumerate 0 (take k s2)) [i + 1] =
           map (lev_table s1 s2 (Suc i)) [0..<k + 1]"
    using Suc k by simp
  have p1: "previous_row ! Suc k = lev_table s1 s2 i (Suc k)"
    unfolding prev using k by (simp del: upt_Suc)
  have p0: "previous_row ! k = lev_table s1 s2 i k"
    unfolding prev using k by (simp del: upt_Suc)
  have c: "map (lev_table s1 s2 (Suc i)) [0..<k + 1] ! k = lev_table s1 s2 (Suc i) k"
    by (simp del: upt_Suc)
  have step: "lev_table s1 s2 (Suc i) (Suc k) =
           min (min (previous_row ! Suc k + 1)
                    (map (lev_table s1 s2 (Suc i)) [0..<k + 1] ! k + 1))
               (previous_row ! k + (if s1 ! i \<noteq> s2 ! k then 1 else 0))"
    unfolding p1 p0 c by (rule lev_table_step[OF i k])
  have "fold (lev_cell (s1 ! i) previous_row) (enumerate 0 (take (Suc k) s2)) [i + 1] =
          map (lev_table s1 s2 (Suc i)) [0..<k + 1] @ [lev_table s1 s2 (Suc i) (Suc k)]"
    unfolding e fold_append comp_apply ih step
    by (simp only: fold.simps lev_cell_def case_prod_conv Let_def comp_apply id_apply Suc_eq_plus1)
  then show ?case by simp
qed

lemma lev_row_table:
  assumes "i < length s1"
  shows "lev_row s2 (i, s1 ! i) (map (lev_table s1 s2 i) [0..<Suc (length s2)]) =
           map (lev_table s1 s2 (Suc i)) [0..<Suc (length s2)]"
  using lev_inner[OF assms refl, of "length s2" s2] by (simp add: lev_row_def del: upt_Suc)

lemma lev_outer:
  "k \<le> length s1 \<Longrightarrow>
     fold (lev_row s2) (enumerate 0 (take k s1)) [0..<length s2 + 1] =
       map (lev_table s1 s2 k) [0..<length s2 + 1]"
proof (induction k)
  case 0
  have "map (lev_table s1 s2 0) [0..<length s2 + 1] = map (\<lambda>j. j) [0..<length s2 + 1]"
    by (rule map_cong) (auto simp: lev_table_0)
  then show ?case by simp
next
  case (Suc k)
  then have k: "k < length s1" by simp
  have e: "enumerate 0 (take (Suc k) s1) = enumerate 0 (take k s1) @ [(k, s1 ! k)]"
    using k by (simp add: take_Suc_conv_app_nth enumerate_append_eq min_def)
  show ?case
    unfolding e fold_append comp_apply using Suc k
    by (simp add: lev_row_table del: upt_Suc)
qed

lemma levenshtein_distance_edit:
  "levenshtein_distance s1 s2 = edit_distance (rev s1) (rev s2)"
proof (induction s1 s2 rule: levenshtein_distance.induct)
  case (1 s1 s2)
  show ?case
  proof (cases "length s1 < length s2")
    case True
    then show ?thesis using 1 by (subst levenshtein_distance.simps) (simp add: edit_distance_sym)
  next
    case False
    show ?thesis
    proof (cases "length s2 = 0")
      case True
      then show ?thesis using False
        by (subst levenshtein_distance.simps) (simp add: edit_distance_Nil2)
    next
      case ne: False
      have "fold (lev_row s2) (enumerate 0 s1) [0..<length s2 + 1] =
              map (lev_table s1 s2 (length s1)) [0..<length s2 + 1]"
        using lev_outer[of "length s1" s1 s2] by simp
      then have "last (fold (lev_row s2) (enumerate 0 s1) [0..<length s2 + 1]) =
              lev_table s1 s2 (length s1) (length s2)"
        by (simp add: last_map)
      then show ?thesis using False ne
        by (subst levenshtein_distance.simps) (simp add: lev_table_def)
    qed
  qed
qed

section \<open>The weighted score: symmetry, range, reflexivity\<close>

lemma levenshtein_distance_sym: "levenshtein_distance s1 s2 = levenshtein_distance s2 s1"
  by (simp only: levenshtein_distance_edit edit_distance_sym[of "rev s1"])

lemma levenshtein_distance_le:
  "levenshtein_distance s1 s2 \<le> max (length s1) (length s2)"
  using edit_distance_le[of "rev s1" "rev s2"] by (simp add: levenshtein_distance_edit)

lemma levenshtein_distance_refl: "levenshtein_distance s s = 0"
  by (simp add: levenshtein_distance_edit edit_distance_refl)

lemma jaccard_similarity_sym: "jaccard_similarity a b = jaccard_similarity b a"
  by (simp add: jaccard_similarity_def Let_def Int_commute Un_commute disj_commute)

lemma normalized_levenshtein_sym: "normalized_levenshtein a b = normalized_levenshtein b a"
  by (simp add: normalized_levenshtein_def Let_def levenshtein_distance_sym[of "normalize_text a"]
        max.commute disj_commute)

lemma jaccard_similarity_range: "0 \<le> jaccard_similarity a b \<and> jaccard_similarity a b \<le> 1"
proof -
  let ?A = "set (extract_keywords a)" and ?B = "set (extract_keywords b)"
  have "card (?A \<inter> ?B) \<le> card (?A \<union> ?B)"
    by (rule card_mono) auto
  then have "(of_nat (card (?A \<inter> ?B)) :: rat) \<le> of_nat (card (?A \<union> ?B))"
    by (simp only: of_nat_le_iff)
  then show ?thesis
    by (simp add: jaccard_similarity_def Let_def divide_le_eq_1)
qed

lemma normalized_levenshtein_range:
  "0 \<le> normalized_levenshtein a b \<and> normalized_levenshtein a b \<le> 1"
proof -
  let ?x = "normalize_text a" and ?y = "normalize_text b"
  have "(of_nat (levenshtein_distance ?x ?y) :: rat) \<le> of_nat (max (length ?x) (length ?y))"
    using levenshtein_distance_le[of ?x ?y] by (simp only: of_nat_le_iff)
  then show ?thesis
    by (simp add: normalized_levenshtein_def Let_def divide_le_eq_1)
qed

lemma split_ws_nonempty: "cur \<noteq> [] \<Longrightarrow> split_ws cur s \<noteq> []"
  by (induction cur s rule: split_ws.induct) auto

lemma extract_keywords_normalize_nonempty:
  "extract_keywords a \<noteq> [] \<Longrightarrow> normalize_text a \<noteq> []"
  by (auto simp: extract_keywords_def split_def)

lemma jaccard_similarity_refl: "extract_keywords a \<noteq> [] \<Longrightarrow> jaccard_similarity a a = 1"
proof -
  assume "extract_keywords a \<noteq> []"
  then have "set (extract_keywords a) \<noteq> {}" by simp
  moreover from this have "card (set (extract_keywords a)) > 0"
    by (simp add: card_gt_0_iff)
  ultimately show ?thesis by (simp add: jaccard_similarity_def)
qed

lemma normalized_levenshtein_refl:
  "normalize_text a \<noteq> [] \<Longrightarrow> normalized_levenshtein a a = 1"
  by (simp add: normalized_levenshtein_def levenshtein_distance_refl)

text \<open>
  C10. The weighted score is symmetric in its two texts, whatever the weights: the keyword
  sets enter the Jaccard coefficient through their intersection and union, and the rows
  of \<open>levenshtein_distance\<close> compute the edit distance, which is symmetric.
\<close>

theorem weighted_similarity_sym:
  "weighted_similarity a b jaccard_weight levenshtein_weight =
     weighted_similarity b a jaccard_weight levenshtein_weight"
  by (simp add: weighted_similarity_def jaccard_similarity_sym[of a b]
        normalized_levenshtein_sym[of a b])

text \<open>
  C6. With the default weights 0.4 and 0.6 the weighted score of any two texts lies
  between 0 and 1.
\<close>

theorem weighted_similarity_range:
  "0 \<le> weighted_similarity a b (2 / 5) (3 / 5) \<and> weighted_similarity a b (2 / 5) (3 / 5) \<le> 1"
proof -
  have j: "0 \<le> jaccard_similarity a b" "jaccard_similarity a b \<le> 1"
    using jaccard_similarity_range by auto
  have l: "0 \<le> normalized_levenshtein a b" "normalized_levenshtein a b \<le> 1"
    using normalized_levenshtein_range by auto
  show ?thesis using j l by (simp add: weighted_similarity_def)
qed

text \<open>
  C5, as amended. A text with at least one keyword (a word of its normalised form that is
  longer than two characters and no stop word) has the weighted score 1 with itself, for
  all weights that sum to 1. A text without keywords has the Jaccard score 0 with itself,
  by the guard of \<open>jaccard_similarity\<close> against an empty keyword set.
\<close>

theorem weighted_similarity_refl:
  assumes "extract_keywords a \<noteq> []"
    and "jaccard_weight + levenshtein_weight = 1"
  shows "weighted_similarity a a jaccard_weight levenshtein_weight = 1"
  using assms
  by (simp add: weighted_similarity_def jaccard_similarity_refl normalized_levenshtein_refl
        extract_keywords_normalize_nonempty)

theorem weighted_similarity_refl_witness:
  "extract_keywords (Some ''Knee MRI'') = [''knee'', ''mri'']
   \<and> weighted_similarity (Some ''Knee MRI'') (Some ''Knee MRI'') (2 / 5) (3 / 5) = 1"
proof -
  have k: "extract_keywords (Some ''Knee MRI'') = [''knee'', ''mri'']" by code_simp
  have "extract_keywords (Some ''Knee MRI'') \<noteq> []" unfolding k by simp
  moreover have "(2 / 5 :: rat) + 3 / 5 = 1" by simp
  ultimately show ?thesis using k weighted_similarity_refl by blast
qed

theorem weighted_similarity_refl_counterexample:
  "Some ''the'' \<noteq> Some [] \<and> (2 / 5 :: rat) + 3 / 5 = 1
   \<and> weighted_similarity (Some ''the'') (Some ''the'') (2 / 5) (3 / 5) = 3 / 5
   \<and> weighted_similarity (Some ''the'') (Some ''the'') (2 / 5) (3 / 5) \<noteq> 1"
proof -
  have "weighted_similarity (Some ''the'') (Some ''the'') (2 / 5) (3 / 5) = 3 / 5"
    by code_simp
  then show ?thesis by simp
qed

section \<open>Code similarity\<close>

lemma take_eq_prefix: "take (length sub) s = sub \<longleftrightarrow> (\<exists>q. s = sub @ q)"
proof
  assume "take (length sub) s = sub"
  then have "s = sub @ drop (length sub) s" by (metis append_take_drop_id)
  then show "\<exists>q. s = sub @ q" ..
next
  assume "\<exists>q. s = sub @ q"
  then show "take (length sub) s = sub" by auto
qed

lemma contains_iff: "contains sub s \<longleftrightarrow> (\<exists>p q. s = p @ sub @ q)"
proof (induction s)
  case Nil
  show ?case by auto
next
  case (Cons c cs)
  have "(\<exists>p q. c # cs = p @ sub @ q) \<longleftrightarrow>
          (\<exists>q. c # cs = sub @ q) \<or> (\<exists>p q. cs = p @ sub @ q)"
  proof
    assume "\<exists>p q. c # cs = p @ sub @ q"
    then obtain p q where e: "c # cs = p @ sub @ q" by blast
    show "(\<exists>q. c # cs = sub @ q) \<or> (\<exists>p q. cs = p @ sub @ q)"
    proof (cases p)
      case Nil
      then show ?thesis using e by auto
    next
      case (Cons x p')
      then have "cs = p' @ sub @ q" using e by simp
      then show ?thesis by blast
    qed
  next
    assume "(\<exists>q. c # cs = sub @ q) \<or> (\<exists>p q. cs = p @ sub @ q)"
    then show "\<exists>p q. c # cs = p @ sub @ q"
    proof
      assume "\<exists>q. c # cs = sub @ q"
      then obtain q where "c # cs = [] @ sub @ q" by auto
      then show ?thesis by blast
    next
      assume "\<exists>p q. cs = p @ sub @ q"
      then obtain p q where "c # cs = (c # p) @ sub @ q" by auto
      then show ?thesis by blast
    qed
  qed
  then show ?case using Cons by (simp only: contains.simps take_eq_prefix)
qed

lemma count_positions:
  "length (filter P [0..<n]) = card {i. i < n \<and> P i}"
proof -
  have "card (set (filter P [0..<n])) = length (filter P [0..<n])"
    by (rule distinct_card) simp
  moreover have "set (filter P [0..<n]) = {i. i < n \<and> P i}" by auto
  ultimately show ?thesis by simp
qed

lemma code_similarity_denominator:
  "strip a \<noteq> strip b \<Longrightarrow> 0 < max (length (strip a)) (length (strip b))"
  by (cases "strip a"; cases "strip b") auto

text \<open>
  C4, as amended. \<open>code_similarity\<close> is 0 when a code is missing (\<open>pd.isna\<close>). Otherwise,
  on the trimmed codes, it is 1 when they are equal, 0.9 when one occurs inside the other,
  and else the number of positions below the shorter length at which they agree, divided
  by the longer length. In particular "A10" against "A10" gives 1 and "A10" against
  "A10.2" gives 0.9.
\<close>

theorem code_similarity_cases:
  "code_similarity None c2 = 0
   \<and> code_similarity c1 None = 0
   \<and> code_similarity (Some a) (Some b) =
       (if strip a = strip b then 1
        else if (\<exists>p q. strip b = p @ strip a @ q) \<or> (\<exists>p q. strip a = p @ strip b @ q)
        then 9 / 10
        else of_nat (card {i. i < min (length (strip a)) (length (strip b))
                            \<and> strip a ! i = strip b ! i})
               / of_nat (max (length (strip a)) (length (strip b))))
   \<and> code_similarity (Some ''A10'') (Some ''A10'') = 1
   \<and> code_similarity (Some ''A10'') (Some ''A10.2'') = 9 / 10"
proof -
  have 1: "code_similarity None c2 = 0" by (simp add: code_similarity_def)
  have 2: "code_similarity c1 None = 0" by (simp add: code_similarity_def split: option.splits)
  have 3: "code_similarity (Some a) (Some b) =
       (if strip a = strip b then 1
        else if (\<exists>p q. strip b = p @ strip a @ q) \<or> (\<exists>p q. strip a = p @ strip b @ q)
        then 9 / 10
        else of_nat (card {i. i < min (length (strip a)) (length (strip b))
                            \<and> strip a ! i = strip b ! i})
               / of_nat (max (length (strip a)) (length (strip b))))"
    by (simp add: code_similarity_def Let_def contains_iff count_positions)
  have 4: "code_similarity (Some ''A10'') (Some ''A10'') = 1" by code_simp
  have 5: "code_similarity (Some ''A10'') (Some ''A10.2'') = 9 / 10" by code_simp
  show ?thesis using 1 2 3 4 5 by (intro conjI)
qed

theorem code_similarity_empty_counterexample:
  "code_similarity (Some '''') (Some ''A10'') = 9 / 10
   \<and> code_similarity (Some '''') (Some ''A10'') \<noteq> 0
   \<and> code_similarity (Some '''') (Some '' '') = 1"
proof -
  have a: "code_similarity (Some '''') (Some ''A10'') = 9 / 10" by code_simp
  have b: "code_similarity (Some '''') (Some '' '') = 1" by code_simp
  show ?thesis using a b by simp
qed

section \<open>The engine precondition, review flags, carried columns\<close>

text \<open>
  C7. Without a loaded price list \<open>map_to_price_list\<close> raises the \<open>ValueError\<close> of its first
  statement, whatever the table of source rows is: no row is read and no result row is
  produced.
\<close>

theorem map_to_price_list_not_loaded:
  assumes "price_list self = None"
  shows "map_to_price_list self sbs_df sbs_code_col sbs_desc_col min_threshold =
           Inl (ValueError ''Price list not loaded. Call load_price_list() first.'')"
  using assms by (simp add: map_to_price_list_def)

theorem map_to_price_list_not_loaded_witness:
  "price_list \<lparr>price_list = None\<rparr> = None
   \<and> map_to_price_list \<lparr>price_list = None\<rparr>
        [[(''code'', Some ''S1''), (''desc'', Some ''mri'')], [(''other'', None)]]
        ''code'' ''desc'' (3 / 5) =
      Inl (ValueError ''Price list not loaded. Call load_price_list() first.'')
   \<and> map_to_price_list \<lparr>price_list = Some []\<rparr>
        [[(''code'', Some ''S1''), (''desc'', Some ''mri'')], [(''other'', None)]]
        ''code'' ''desc'' (3 / 5) =
      Inl (KeyError ''code'')"
proof -
  have a: "price_list \<lparr>price_list = None\<rparr> = None" by simp
  have b: "map_to_price_list \<lparr>price_list = Some []\<rparr>
        [[(''code'', Some ''S1''), (''desc'', Some ''mri'')], [(''other'', None)]]
        ''code'' ''desc'' (3 / 5) =
      Inl (KeyError ''code'')"
    by code_simp
  show ?thesis using a b map_to_price_list_not_loaded[OF a] by simp
qed





text \<open>
  C3, the part that the code does not keep. \<open>map_to_price_list\<close> copies the other columns
  of a source row into its result, under the prefix \<open>original_\<close>, in the branch of a
  match only. Here the first source row matches the price list and keeps its \<open>region\<close>;
  the second matches nothing and its \<open>region\<close> is not in the result.
\<close>

theorem map_to_price_list_no_match_drops_columns:
  "map_to_price_list
     \<lparr>price_list = Some [[(''pricelist_description'', Some ''mri''),
                          (''pricelist_code'', Some ''T1'')]]\<rparr>
     [[(''code'', Some ''S1''), (''desc'', Some ''mri''), (''region'', Some ''east'')],
      [(''code'', Some ''S2''), (''desc'', Some ''ecg''), (''region'', Some ''west'')]]
     ''code'' ''desc'' (6 / 10) =
   Inr [[(''sbs_code'', PStr ''S1''), (''sbs_description'', PStr ''mri''),
         (''matched_pricelist_code'', PStr ''T1''),
         (''matched_pricelist_description'', PStr ''mri''),
         (''similarity_score'', PNum 1),
         (''confidence'', PStr ''Exact Match''), (''price'', PNone),
         (''alternative_matches'', PNum 0), (''second_best_score'', PNone),
         (''original_region'', PStr ''east'')],
        [(''sbs_code'', PStr ''S2''), (''sbs_description'', PStr ''ecg''),
         (''matched_pricelist_code'', PNone),
         (''matched_pricelist_description'', PNone),
         (''similarity_score'', PNum 0),
         (''confidence'', PStr ''No Match Found''), (''price'', PNone),
         (''alternative_matches'', PNum 0), (''second_best_score'', PNone)]]"
  by code_simp

section \<open>Sorting in reverse\<close>




lemma sort_reverse_set: "set (sort_reverse f xs) = set xs"
  by (simp add: sort_reverse_def)



lemma insort_key_map:
  "insort_key k (g x) (map g xs) = map g (insort_key (\<lambda>x. k (g x)) x xs)"
  by (induction xs) simp_all

lemma sort_key_map: "sort_key k (map g xs) = map g (sort_key (\<lambda>x. k (g x)) xs)"
  by (induction xs) (simp_all add: insort_key_map)

lemma sort_reverse_map:
  "sort_reverse k (map g xs) = map g (sort_reverse (\<lambda>x. k (g x)) xs)"
  by (simp add: sort_reverse_def rev_map sort_key_map)

lemma sort_reverse_short: "length xs < 2 \<Longrightarrow> sort_reverse f xs = xs"
proof (cases xs)
  case Nil
  then show ?thesis by (simp add: sort_reverse_def)
next
  case (Cons x ys)
  assume "length xs < 2"
  then have "ys = []" using Cons by simp
  then show ?thesis using Cons by (simp add: sort_reverse_def)
qed

section \<open>The search for the best matches\<close>

lemma fold_columns_other:
  assumes "\<forall>col \<in> set cols. Some col \<notin> set skip \<longrightarrow> prefix @ col \<noteq> k"
  shows "map_of (fold (\<lambda>col d. if Some col \<in> set skip then d
                    else (case map_of row col of
                            None \<Rightarrow> d
                          | Some v \<Rightarrow> AList.update (prefix @ col) (of_cell v) d)) cols d) k
         = map_of d k"
  using assms
  by (induction cols arbitrary: d) (auto simp: update_conv' split: option.splits)

lemma add_columns_other:
  assumes "\<forall>col \<in> fst ` set row. Some col \<notin> set skip \<longrightarrow> prefix @ col \<noteq> k"
  shows "map_of (add_columns prefix skip row d) k = map_of d k"
  unfolding add_columns_def using assms by (intro fold_columns_other) simp

lemma fold_columns_kept:
  assumes "map_of row col = Some v" and "Some col \<notin> set skip"
    and "col \<in> set cols \<or> map_of d (prefix @ col) = Some (of_cell v)"
  shows "map_of (fold (\<lambda>col d. if Some col \<in> set skip then d
                    else (case map_of row col of
                            None \<Rightarrow> d
                          | Some v \<Rightarrow> AList.update (prefix @ col) (of_cell v) d)) cols d)
           (prefix @ col) = Some (of_cell v)"
  using assms(3)
proof (induction cols arbitrary: d)
  case Nil
  then show ?case by simp
next
  case (Cons c cols)
  let ?step = "\<lambda>col d. if Some col \<in> set skip then d
                    else (case map_of row col of
                            None \<Rightarrow> d
                          | Some v \<Rightarrow> AList.update (prefix @ col) (of_cell v) d)"
  have "col \<in> set cols \<or> map_of (?step c d) (prefix @ col) = Some (of_cell v)"
  proof (cases "c = col")
    case True
    then show ?thesis using assms(1,2) by (simp add: update_conv')
  next
    case False
    then show ?thesis using Cons.prems by (auto simp: update_conv' split: option.splits)
  qed
  then show ?case using Cons.IH[of "?step c d"] by simp
qed

lemma add_columns_kept:
  assumes "map_of row col = Some v" and "Some col \<notin> set skip"
  shows "map_of (add_columns prefix skip row d) (prefix @ col) = Some (of_cell v)"
proof -
  have "col \<in> set (map fst row)" using assms(1) by (force dest: map_of_SomeD)
  then show ?thesis unfolding add_columns_def
    using fold_columns_kept[OF assms, of "map fst row" d prefix] by simp
qed

lemma candidate_score:
  assumes "''similarity_score'' \<notin> fst ` set (df ! i)"
  shows "map_of (candidate q dcol ccol df i) ''similarity_score'' =
           Some (PNum (row_score q dcol (df ! i)))"
proof -
  have "\<forall>col \<in> fst ` set (df ! i). Some col \<notin> set [Some dcol, ccol]
          \<longrightarrow> [] @ col \<noteq> ''similarity_score''"
  proof (intro ballI impI)
    fix col assume "col \<in> fst ` set (df ! i)"
    then have "col \<noteq> ''similarity_score''" using assms by blast
    then show "[] @ col \<noteq> ''similarity_score''" by simp
  qed
  then show ?thesis unfolding candidate_def make_match_def
    by (subst add_columns_other) simp_all
qed

lemma collect_matches_eq:
  assumes "\<forall>(i, row) \<in> set irows. map_of row dcol \<noteq> None"
  shows "collect_matches q dcol ccol thr irows acc =
           Inr (acc @ map (\<lambda>(i, row). make_match dcol ccol i row (cell_at row dcol)
                                        (row_score q dcol row))
                          (filter (\<lambda>(i, row). row_score q dcol row \<ge> thr) irows))"
  using assms
proof (induction irows arbitrary: acc)
  case Nil
  then show ?case by simp
next
  case (Cons p irows)
  obtain i row where p: "p = (i, row)" by (cases p)
  obtain c where c: "map_of row dcol = Some c" using Cons.prems p by auto
  have rest: "\<forall>(i, row) \<in> set irows. map_of row dcol \<noteq> None" using Cons.prems by simp
  show ?case
    unfolding p using c Cons.IH[OF rest]
    by (simp add: Let_def row_score_def cell_at_def)
qed

lemma enumerate_positions: "enumerate 0 xs = map (\<lambda>i. (i, xs ! i)) [0..<length xs]"
  by (rule nth_equalityI) (simp_all add: nth_enumerate_eq)

lemma collect_matches_frame:
  assumes "\<forall>row \<in> set df. map_of row dcol \<noteq> None"
  shows "collect_matches q dcol ccol thr (enumerate 0 df) [] =
           Inr (map (candidate q dcol ccol df)
                    (filter (\<lambda>i. row_score q dcol (df ! i) \<ge> thr) [0..<length df]))"
proof -
  have "\<forall>(i, row) \<in> set (enumerate 0 df). map_of row dcol \<noteq> None"
    using assms by (auto simp: enumerate_positions)
  then show ?thesis
    by (simp add: collect_matches_eq enumerate_positions filter_map comp_def candidate_def)
qed

lemma insort_key_agree:
  "\<forall>x \<in> insert y (set xs). f x = g x \<Longrightarrow> insort_key f y xs = insort_key g y xs"
  by (induction xs) simp_all

lemma sort_key_agree: "\<forall>x \<in> set xs. f x = g x \<Longrightarrow> sort_key f xs = sort_key g xs"
proof (induction xs)
  case Nil
  then show ?case by simp
next
  case (Cons x xs)
  have "sort_key f xs = sort_key g xs" using Cons by simp
  moreover have "insort_key f x (sort_key g xs) = insort_key g x (sort_key g xs)"
    using Cons.prems by (intro insort_key_agree) simp
  ultimately show ?case by simp
qed

lemma sort_reverse_agree:
  "\<forall>x \<in> set xs. f x = g x \<Longrightarrow> sort_reverse f xs = sort_reverse g xs"
  unfolding sort_reverse_def by (simp add: sort_key_agree[of "rev xs" f g])

lemma sort_matches_numbers:
  assumes "\<forall>i \<in> set is. map_of (cand i) ''similarity_score'' = Some (PNum (score i))"
  shows "sort_matches (map cand is) = Inr (map cand (sort_reverse score is))"
proof -
  let ?ms = "map cand is"
  let ?key = "\<lambda>m. case as_number (dict_get m ''similarity_score'') of
                      Some r \<Rightarrow> r | None \<Rightarrow> (0 :: rat)"
  have present: "list_all (\<lambda>m. map_of m ''similarity_score'' \<noteq> None) ?ms"
    using assms by (simp add: list_all_iff)
  have numbers: "list_all (\<lambda>m. as_number (dict_get m ''similarity_score'') \<noteq> None) ?ms"
    using assms by (simp add: list_all_iff dict_get_def)
  show ?thesis
  proof (cases "length is < 2")
    case True
    then show ?thesis using present
      by (simp add: sort_matches_def sort_reverse_short)
  next
    case False
    have "sort_reverse ?key ?ms = map cand (sort_reverse (\<lambda>i. ?key (cand i)) is)"
      by (rule sort_reverse_map)
    also have "sort_reverse (\<lambda>i. ?key (cand i)) is = sort_reverse score is"
      using assms by (intro sort_reverse_agree) (simp add: dict_get_def)
    finally show ?thesis using present numbers False
      by (simp add: sort_matches_def)
  qed
qed

lemma find_best_match_eq:
  assumes "0 \<le> top_n"
    and "\<forall>row \<in> set df. map_of row dcol \<noteq> None"
    and "\<forall>row \<in> set df. ''similarity_score'' \<notin> fst ` set row"
  shows "find_best_match q df dcol ccol top_n thr =
           Inr (map (candidate q dcol ccol df)
                  (take (nat top_n)
                     (sort_reverse (\<lambda>i. row_score q dcol (df ! i))
                        (filter (\<lambda>i. row_score q dcol (df ! i) \<ge> thr) [0..<length df]))))"
proof -
  let ?is = "filter (\<lambda>i. row_score q dcol (df ! i) \<ge> thr) [0..<length df]"
  have "\<forall>i \<in> set ?is. map_of (candidate q dcol ccol df i) ''similarity_score'' =
          Some (PNum (row_score q dcol (df ! i)))"
    using assms(3) by (auto intro!: candidate_score)
  then have "sort_matches (map (candidate q dcol ccol df) ?is) =
          Inr (map (candidate q dcol ccol df)
                 (sort_reverse (\<lambda>i. row_score q dcol (df ! i)) ?is))"
    by (rule sort_matches_numbers)
  then show ?thesis using assms(1)
    by (simp add: find_best_match_def collect_matches_frame[OF assms(2)] slice_to_def take_map)
qed




section \<open>The results of a mapping\<close>











text \<open>
  A source row for which a match is found keeps each of its other columns in the result,
  under the prefix \<open>original_\<close>.
\<close>

theorem map_row_match_keeps_columns:
  assumes "map_row pl sbs_code_col sbs_desc_col min_threshold row = Inr result"
    and "map_of row sbs_desc_col = Some desc"
    and "find_best_match desc pl ''pricelist_description'' (Some ''pricelist_code'') 5
           min_threshold = Inr matches"
    and "matches \<noteq> []"
    and "map_of row col = Some v"
    and "col \<noteq> sbs_code_col" and "col \<noteq> sbs_desc_col"
  shows "map_of result (''original_'' @ col) = Some (of_cell v)"
proof -
  from assms(1,2,3,4) obtain d where
    "result = add_columns ''original_'' [Some sbs_code_col, Some sbs_desc_col] row d"
    by (cases matches)
       (auto simp: map_row_def split: option.splits sum.splits if_splits)
  moreover have "Some col \<notin> set [Some sbs_code_col, Some sbs_desc_col]"
    using assms(6,7) by simp
  ultimately show ?thesis using add_columns_kept[OF assms(5)] by blast
qed

theorem map_row_match_keeps_columns_witness:
  "map_of (case map_row [[(''pricelist_description'', Some ''mri'')]] ''code'' ''desc'' (6 / 10)
                  [(''code'', Some ''S1''), (''desc'', Some ''mri''), (''region'', Some ''east'')] of
             Inr result \<Rightarrow> result | Inl e \<Rightarrow> [])
     (''original_'' @ ''region'') = Some (of_cell (Some ''east''))"
proof -
  let ?pl = "[[(''pricelist_description'', Some ''mri'')]]"
  let ?row = "[(''code'', Some ''S1''), (''desc'', Some ''mri''), (''region'', Some ''east'')]"
  let ?result = "[(''sbs_code'', PStr ''S1''), (''sbs_description'', PStr ''mri''),
                  (''matched_pricelist_code'', PNone),
                  (''matched_pricelist_description'', PStr ''mri''),
                  (''similarity_score'', PNum 1),
                  (''confidence'', PStr ''Exact Match''), (''price'', PNone),
                  (''alternative_matches'', PNum 0), (''second_best_score'', PNone),
                  (''original_region'', PStr ''east'')]"
  let ?matches = "[[(''index'', PNum 0), (''similarity_score'', PNum 1),
                    (''description'', PStr ''mri''), (''code'', PNone)]]"
  have r: "map_row ?pl ''code'' ''desc'' (6 / 10) ?row = Inr ?result"
    by code_simp
  have m: "find_best_match (Some ''mri'') ?pl ''pricelist_description''
        (Some ''pricelist_code'') 5 (6 / 10) = Inr ?matches"
    by code_simp
  have ne: "?matches \<noteq> []" by simp
  have d: "map_of ?row ''desc'' = Some (Some ''mri'')" by simp
  have c: "map_of ?row ''region'' = Some (Some ''east'')" by simp
  have "map_of ?result (''original_'' @ ''region'') = Some (of_cell (Some ''east''))"
    using map_row_match_keeps_columns[OF r d m ne c] by simp
  then show ?thesis unfolding r by simp
qed

section \<open>When the mapping returns\<close>

lemma fold_columns_present:
  assumes "map_of d k \<noteq> None"
  shows "map_of (fold (\<lambda>col d. if Some col \<in> set skip then d
                    else (case map_of row col of
                            None \<Rightarrow> d
                          | Some v \<Rightarrow> AList.update (prefix @ col) (of_cell v) d)) cols d) k
         \<noteq> None"
  using assms
  by (induction cols arbitrary: d) (auto simp: update_conv' split: option.splits)

lemma add_columns_present:
  "map_of d k \<noteq> None \<Longrightarrow> map_of (add_columns prefix skip row d) k \<noteq> None"
  unfolding add_columns_def by (rule fold_columns_present)

lemma candidate_description: "map_of (candidate q dcol ccol df i) ''description'' \<noteq> None"
  unfolding candidate_def make_match_def by (rule add_columns_present) simp

lemma map_row_returns:
  assumes "\<forall>r \<in> set pl. map_of r ''pricelist_description'' \<noteq> None"
    and "\<forall>r \<in> set pl. ''similarity_score'' \<notin> fst ` set r"
    and "map_of row sbs_code_col \<noteq> None" and "map_of row sbs_desc_col \<noteq> None"
  shows "\<exists>result. map_row pl sbs_code_col sbs_desc_col min_threshold row = Inr result"
proof -
  obtain code desc where code: "map_of row sbs_code_col = Some code"
    and desc: "map_of row sbs_desc_col = Some desc"
    using assms(3,4) by auto
  let ?cand = "candidate desc ''pricelist_description'' (Some ''pricelist_code'') pl"
  let ?score = "\<lambda>i. row_score desc ''pricelist_description'' (pl ! i)"
  let ?js = "take (nat 5)
               (sort_reverse ?score (filter (\<lambda>i. ?score i \<ge> min_threshold) [0..<length pl]))"
  have fb: "find_best_match desc pl ''pricelist_description'' (Some ''pricelist_code'') 5
              min_threshold = Inr (map ?cand ?js)"
    using assms(1,2) by (intro find_best_match_eq) simp_all
  have idx: "\<forall>j \<in> set ?js. j < length pl"
    by (auto dest!: in_set_takeD simp: sort_reverse_set)
  have sc: "\<forall>j \<in> set ?js. map_of (?cand j) ''similarity_score'' = Some (PNum (?score j))"
  proof
    fix j assume "j \<in> set ?js"
    then have "j < length pl" using idx by blast
    then have "pl ! j \<in> set pl" by simp
    then have "''similarity_score'' \<notin> fst ` set (pl ! j)" using assms(2) by blast
    then show "map_of (?cand j) ''similarity_score'' = Some (PNum (?score j))"
      by (rule candidate_score)
  qed
  show ?thesis
  proof (cases ?js)
    case Nil
    then show ?thesis using code desc fb by (simp add: map_row_def)
  next
    case (Cons j js)
    have b: "dict_item (?cand j) ''similarity_score'' = Inr (PNum (?score j))"
      using sc Cons by (simp add: dict_item_def)
    obtain description where d: "dict_item (?cand j) ''description'' = Inr description"
      using candidate_description[of desc "''pricelist_description''"
          "Some ''pricelist_code''" pl j]
      by (auto simp: dict_item_def)
    have "\<exists>second. (if length (map ?cand ?js) > 1
                     then dict_item (map ?cand ?js ! 1) ''similarity_score''
                     else Inr PNone) = Inr second"
    proof (cases js)
      case Nil
      then show ?thesis using Cons by simp
    next
      case (Cons j' js')
      then have "map_of (?cand j') ''similarity_score'' = Some (PNum (?score j'))"
        using sc \<open>?js = j # js\<close> by simp
      then show ?thesis using Cons \<open>?js = j # js\<close> by (simp add: dict_item_def)
    qed
    then obtain second where s: "(if length (map ?cand ?js) > 1
                     then dict_item (map ?cand ?js ! 1) ''similarity_score''
                     else Inr PNone) = Inr second" ..
    have m: "map ?cand ?js = ?cand j # map ?cand js" using Cons by simp
    show ?thesis
      unfolding map_row_def using code desc fb b d s unfolding m
      by simp
  qed
qed

lemma map_rows_returns:
  assumes "\<forall>row \<in> set rows.
             \<exists>result. map_row pl sbs_code_col sbs_desc_col min_threshold row = Inr result"
  shows "\<exists>results. map_rows pl sbs_code_col sbs_desc_col min_threshold rows acc = Inr results"
  using assms
proof (induction rows arbitrary: acc)
  case Nil
  then show ?case by simp
next
  case (Cons row rows)
  then obtain result where
    "map_row pl sbs_code_col sbs_desc_col min_threshold row = Inr result" by auto
  then show ?case using Cons.IH[of "acc @ [result]"] Cons.prems by simp
qed

text \<open>
  \<open>map_to_price_list\<close> returns a table when the price list is loaded, each of its rows has
  the column \<open>pricelist_description\<close> and none has a column \<open>similarity_score\<close>, and each
  source row has the code and the description column.
\<close>

theorem map_to_price_list_returns:
  assumes "price_list self = Some pl"
    and "\<forall>r \<in> set pl. map_of r ''pricelist_description'' \<noteq> None"
    and "\<forall>r \<in> set pl. ''similarity_score'' \<notin> fst ` set r"
    and "\<forall>row \<in> set sbs_df. map_of row sbs_code_col \<noteq> None \<and> map_of row sbs_desc_col \<noteq> None"
  shows "\<exists>results.
           map_to_price_list self sbs_df sbs_code_col sbs_desc_col min_threshold = Inr results"
proof -
  have "\<forall>row \<in> set sbs_df.
          \<exists>result. map_row pl sbs_code_col sbs_desc_col min_threshold row = Inr result"
  proof
    fix row assume "row \<in> set sbs_df"
    then have "map_of row sbs_code_col \<noteq> None" and "map_of row sbs_desc_col \<noteq> None"
      using assms(4) by blast+
    with assms(2,3)
    show "\<exists>result. map_row pl sbs_code_col sbs_desc_col min_threshold row = Inr result"
      by (rule map_row_returns)
  qed
  then show ?thesis
    using assms(1) by (simp add: map_to_price_list_def map_rows_returns)
qed

theorem map_to_price_list_returns_witness:
  "\<exists>results.
     map_to_price_list \<lparr>price_list = Some [[(''pricelist_description'', Some ''mri'')]]\<rparr>
       [[(''code'', Some ''S1''), (''desc'', None)]] ''code'' ''desc'' (6 / 10) = Inr results"
proof -
  let ?pl = "[[(''pricelist_description'', Some ''mri'')]]"
  have 1: "price_list \<lparr>price_list = Some ?pl\<rparr> = Some ?pl" by simp
  have 2: "\<forall>r \<in> set ?pl. map_of r ''pricelist_description'' \<noteq> None" by simp
  have 3: "\<forall>r \<in> set ?pl. ''similarity_score'' \<notin> fst ` set r" by simp
  have 4: "\<forall>row \<in> set [[(''code'', Some ''S1''), (''desc'', None)]].
             map_of row ''code'' \<noteq> None \<and> map_of row ''desc'' \<noteq> None" by simp
  show ?thesis by (rule map_to_price_list_returns[OF 1 2 3 4])
qed

lemma flag_ambiguous_matches_returns:
  assumes "\<forall>row \<in> set rows. \<exists>flagged. flag_row g row = Inr flagged"
  shows "\<exists>flagged. flag_ambiguous_matches rows g = Inr flagged"
  using assms
proof (induction rows)
  case Nil
  then show ?case by simp
next
  case (Cons row rows)
  then obtain f fs where "flag_row g row = Inr f" "flag_ambiguous_matches rows g = Inr fs"
    by auto
  then show ?case by simp
qed

end
